theory Spec2Isabelle
  imports Main "HOL-Library.Sublist"
begin

section \<open>Strings and global regular-expression replacement\<close>

text \<open>
  JavaScript strings are modelled as \<open>string\<close> (lists of 8-bit characters), that is, the
  code units below 256. The character classes of the regular expressions are restricted
  to that range: \<open>\s\<close> is tab, line feed, vertical tab, form feed, carriage return, space
  and no-break space; \<open>\w\<close> is \<open>[A-Za-z0-9_]\<close>. Under the \<open>i\<close> flag a letter of the
  pattern matches itself in either case; no other code unit below 256 folds to an ASCII
  letter.
\<close>

definition is_space :: "char \<Rightarrow> bool" where
  "is_space c = (c \<in> set [CHR 0x09, CHR 0x0A, CHR 0x0B, CHR 0x0C, CHR 0x0D, CHR 0x20, CHR 0xA0])"

definition is_word :: "char \<Rightarrow> bool" where
  "is_word c = (c \<in> set ''abcdefghijklmnopqrstuvwxyzABCDEFGHIJKLMNOPQRSTUVWXYZ0123456789_'')"

definition lower :: "char \<Rightarrow> char" where
  "lower c = (case map_of (zip ''ABCDEFGHIJKLMNOPQRSTUVWXYZ'' ''abcdefghijklmnopqrstuvwxyz'') c of
                None \<Rightarrow> c
              | Some l \<Rightarrow> l)"

text \<open>Matching a literal at the head of the input; the result is the input behind it.\<close>

fun strip_prefix :: "string \<Rightarrow> string \<Rightarrow> string option" where
  "strip_prefix [] ys = Some ys"
| "strip_prefix (x # xs) [] = None"
| "strip_prefix (x # xs) (y # ys) = (if x = y then strip_prefix xs ys else None)"

text \<open>The same under the \<open>i\<close> flag, for a literal written in lower case.\<close>

fun strip_prefix_ci :: "string \<Rightarrow> string \<Rightarrow> string option" where
  "strip_prefix_ci [] ys = Some ys"
| "strip_prefix_ci (x # xs) [] = None"
| "strip_prefix_ci (x # xs) (y # ys) = (if x = lower y then strip_prefix_ci xs ys else None)"

text \<open>
  \<open>String.prototype.replace\<close> with a regular expression that carries the \<open>g\<close> flag. The
  regular expression is given by its matcher at the current position: \<open>m s\<close> is \<open>None\<close>
  when the expression does not match at the head of \<open>s\<close>, and \<open>Some (r, rest)\<close> when it
  does, \<open>r\<close> being the replacement text with its \<open>$n\<close> references filled in and \<open>rest\<close>
  the input that follows the match. Scanning goes left to right; after a match it resumes
  behind the match; after an empty match the next character is copied.
\<close>

function replace_global :: "(string \<Rightarrow> (string \<times> string) option) \<Rightarrow> string \<Rightarrow> string" where
  "replace_global m [] = (case m [] of None \<Rightarrow> [] | Some (r, rest) \<Rightarrow> r)"
| "replace_global m (c # cs) =
     (case m (c # cs) of
        None \<Rightarrow> c # replace_global m cs
      | Some (r, rest) \<Rightarrow>
          if length rest \<le> length cs then r @ replace_global m rest
          else r @ c # replace_global m cs)"
  by pat_completeness auto
termination
  by (relation "measure (\<lambda>(m, s). length s)") auto

section \<open>The code-fence language classifier (index.ts, scrapeToMarkdown)\<close>

definition fence :: string where
  "fence = ''```\<newline>''"

definition js_keywords :: "string list" where
  "js_keywords = [''class'', ''function'', ''import'', ''const'', ''let'', ''var'',
                  ''if'', ''for'', ''while'']"

definition py_keywords :: "string list" where
  "py_keywords = [''def'', ''class'', ''import'', ''from'', ''with'', ''if'', ''for'', ''while'']"

text \<open>
  The first expression: three backticks, a line feed and one of the alternatives, tried in
  the order written. The replacement is the fence tagged \<open>javascript\<close> and \<open>$1\<close>.
\<close>

definition js_regex :: "string \<Rightarrow> (string \<times> string) option" where
  "js_regex s =
     (case strip_prefix fence s of
        None \<Rightarrow> None
      | Some body \<Rightarrow>
          (case find (\<lambda>kw. prefix kw body) js_keywords of
             None \<Rightarrow> None
           | Some kw \<Rightarrow> Some (''```javascript\<newline>'' @ kw, drop (length kw) body)))"

text \<open>
  The second expression: the fence, one of the alternatives, and \<open>(\s+)\<close>, a greedy run of
  at least one white-space character. An alternative is taken only if white space follows
  it; otherwise the next alternative is tried. The replacement is the fence tagged
  \<open>python\<close>, \<open>$1\<close> and \<open>$2\<close>.
\<close>

definition followed_by_space :: "string \<Rightarrow> string \<Rightarrow> bool" where
  "followed_by_space kw body =
     (prefix kw body \<and> (case drop (length kw) body of [] \<Rightarrow> False | c # _ \<Rightarrow> is_space c))"

definition py_regex :: "string \<Rightarrow> (string \<times> string) option" where
  "py_regex s =
     (case strip_prefix fence s of
        None \<Rightarrow> None
      | Some body \<Rightarrow>
          (case find (\<lambda>kw. followed_by_space kw body) py_keywords of
             None \<Rightarrow> None
           | Some kw \<Rightarrow>
               Some (''```python\<newline>'' @ kw @ takeWhile is_space (drop (length kw) body),
                     dropWhile is_space (drop (length kw) body))))"

text \<open>The two substitutions of \<open>scrapeToMarkdown\<close>, in the order of the source.\<close>

definition classify :: "string \<Rightarrow> string" where
  "classify markdown = replace_global py_regex (replace_global js_regex markdown)"

text \<open>
  Two notions for reasoning about a pass: \<open>no_match m s\<close> says that the expression
  matches at no position of \<open>s\<close>; \<open>fence_matcher m\<close> collects what the two expressions of
  the classifier share: a match starts with a backtick, consumes at least one character
  and leaves a suffix of the input, and its replacement starts with three backticks and
  a character that is neither a backtick nor a line feed, with no further backtick.
\<close>

definition no_match :: "(string \<Rightarrow> (string \<times> string) option) \<Rightarrow> string \<Rightarrow> bool" where
  "no_match m s = list_all (\<lambda>t. m t = None) (suffixes s)"

definition fence_matcher :: "(string \<Rightarrow> (string \<times> string) option) \<Rightarrow> bool" where
  "fence_matcher m \<longleftrightarrow>
     m [] = None
     \<and> (\<forall>c cs. c \<noteq> CHR 0x60 \<longrightarrow> m (c # cs) = None)
     \<and> (\<forall>s r rest. m s = Some (r, rest) \<longrightarrow>
           suffix rest s \<and> length rest < length s
           \<and> (\<exists>l w. r = CHR 0x60 # CHR 0x60 # CHR 0x60 # l # w
                  \<and> l \<noteq> CHR 0x60 \<and> l \<noteq> CHR ''\<newline>'' \<and> CHR 0x60 \<notin> set w))"

text \<open>
  The policy as the specification words it, for the text \<open>body\<close> that follows an opening
  fence: \<open>javascript\<close> if it begins with a keyword of the first set; otherwise \<open>python\<close> if
  it begins with a keyword of the second set followed by white space; otherwise no tag.
\<close>

definition spec_language_tag :: "string \<Rightarrow> string" where
  "spec_language_tag body =
     (if list_ex (\<lambda>kw. prefix kw body) js_keywords then ''javascript''
      else if list_ex (\<lambda>kw. followed_by_space kw body) py_keywords then ''python''
      else [])"

text \<open>
  The Normalizer as the specification words it: runs of three or more line feeds become
  two, then white space is trimmed at both ends.
\<close>

fun collapse_newlines :: "string \<Rightarrow> string" where
  "collapse_newlines (a # b # c # rest) =
     (if a = CHR ''\<newline>'' \<and> b = CHR ''\<newline>'' \<and> c = CHR ''\<newline>''
      then collapse_newlines (b # c # rest)
      else a # collapse_newlines (b # c # rest))"
| "collapse_newlines s = s"

definition spec_normalize :: "string \<Rightarrow> string" where
  "spec_normalize s =
     rev (dropWhile is_space (rev (dropWhile is_space (collapse_newlines s))))"

section \<open>HTML to Markdown (data_processing.ts)\<close>

text \<open>
  The script-removing expression
  \<^verbatim>\<open>/<script\b[^<]*(?:(?!<\/script>)<[^<]*)*<\/script>/gi\<close>.
  Behind the opening literal and the word boundary, \<open>script_tail\<close> walks the input:
  a character other than \<open><\<close> is taken by \<open>[^<]*\<close>; at a \<open><\<close> that starts the closing
  literal the look-ahead stops the group and the closing literal matches; any other
  \<open><\<close> is taken by the group. At the end of the input the expression fails.
\<close>

fun script_tail :: "string \<Rightarrow> string option" where
  "script_tail [] = None"
| "script_tail (c # cs) =
     (if c \<noteq> CHR ''<'' then script_tail cs
      else (case strip_prefix_ci ''</script>'' (c # cs) of
              Some rest \<Rightarrow> Some rest
            | None \<Rightarrow> script_tail cs))"

definition script_regex :: "string \<Rightarrow> (string \<times> string) option" where
  "script_regex s =
     (case strip_prefix_ci ''<script'' s of
        None \<Rightarrow> None
      | Some t \<Rightarrow>
          if (case t of [] \<Rightarrow> False | c # _ \<Rightarrow> is_word c) then None
          else (case script_tail t of None \<Rightarrow> None | Some rest \<Rightarrow> Some ([], rest)))"





text \<open>
  The options that \<open>htmlToMarkdown\<close> passes to the converter. The converter itself is the
  \<open>turndown\<close> package: it is a parameter of the model.
\<close>

datatype code_block_style = Indented | Fenced

record turndown_options =
  codeBlockStyle :: code_block_style
  emDelimiter :: string

definition options :: turndown_options where
  "options = \<lparr>codeBlockStyle = Fenced, emDelimiter = ''_''\<rparr>"

definition htmlToMarkdown :: "(turndown_options \<Rightarrow> string \<Rightarrow> string) \<Rightarrow> string \<Rightarrow> string" where
  "htmlToMarkdown turndown html =
     (let cleanHtml = replace_global script_regex html in turndown options cleanHtml)"

section \<open>Scraping (index.ts)\<close>

text \<open>
  The collaborators of \<open>scrapeToMarkdown\<close>: \<open>fetch\<close> answers a URL with a response or
  rejects with a message; \<open>parse_article\<close> stands for JSDOM and Readability, which from the
  HTML text and the URL give an article, \<open>null\<close> (\<open>None\<close>), or throw. The content of an
  article is a string or \<open>null\<close>.
\<close>

record response =
  ok :: bool
  status :: nat
  html_text :: string

record article =
  content :: "string option"

record collaborators =
  fetch :: "string \<Rightarrow> string + response"
  parse_article :: "string \<Rightarrow> string \<Rightarrow> string + article option"
  converter :: "turndown_options \<Rightarrow> string \<Rightarrow> string"

function show_nat :: "nat \<Rightarrow> string" where
  "show_nat n =
     (if n < 10 then [''0123456789'' ! n]
      else show_nat (n div 10) @ [''0123456789'' ! (n mod 10)])"
  by pat_completeness auto
termination
  by (relation "measure id") auto

text \<open>The statements inside \<open>try\<close>; \<open>Inl\<close> is the message of the error thrown.\<close>

definition scrape_steps :: "collaborators \<Rightarrow> string \<Rightarrow> string + string" where
  "scrape_steps c url =
     (case fetch c url of
        Inl message \<Rightarrow> Inl message
      | Inr response \<Rightarrow>
          if \<not> ok response then Inl (''Failed to fetch URL: '' @ show_nat (status response))
          else (case parse_article c (html_text response) url of
                  Inl message \<Rightarrow> Inl message
                | Inr None \<Rightarrow> Inl ''Failed to parse article content''
                | Inr (Some article) \<Rightarrow>
                    (case content article of
                       None \<Rightarrow> Inl ''Failed to parse article content''
                     | Some html \<Rightarrow>
                         if html = [] then Inl ''Failed to parse article content''
                         else Inr (classify (htmlToMarkdown (converter c) html)))))"

text \<open>
  \<open>scrapeToMarkdown\<close> with its \<open>catch\<close>. The state is the list of the URLs requested so
  far: one call makes one request.
\<close>

definition scrapeToMarkdown ::
  "collaborators \<Rightarrow> string \<Rightarrow> string list \<Rightarrow> (string + string) \<times> string list" where
  "scrapeToMarkdown c url requests =
     ((case scrape_steps c url of
         Inl message \<Rightarrow> Inl (''Scraping error: '' @ message)
       | Inr markdown \<Rightarrow> Inr markdown),
      requests @ [url])"

text \<open>The handler of the tool \<open>scrape-to-markdown\<close>.\<close>

record tool_result =
  content_text :: string
  isError :: bool

definition scrape_tool ::
  "collaborators \<Rightarrow> string \<Rightarrow> string list \<Rightarrow> tool_result \<times> string list" where
  "scrape_tool c url requests =
     (case scrapeToMarkdown c url requests of
        (Inr markdown, requests') \<Rightarrow> (\<lparr>content_text = markdown, isError = False\<rparr>, requests')
      | (Inl message, requests') \<Rightarrow> (\<lparr>content_text = ''Error: '' @ message, isError = True\<rparr>, requests'))"

section \<open>The Markdown Serializer\<close>

text \<open>
  Modelled from the spec: the Markdown Serializer (section 4.3), which in the repository
  is the \<open>turndown\<close> package called by \<open>htmlToMarkdown\<close>; its source is not under src/.
  The model follows the specification's data model (section 3): a \<open>DocumentNode\<close> is an
  element with a tag name, attributes and children, a text or a comment; the serializer
  produces a fragment, a sequence of inline and block-level segments, and fragments
  compose by concatenation, block-level segments being separated by a blank line. Of the
  rule table the rows for headings, emphasis, strong, tables, block containers and the
  default row are modelled; the delimiter of emphasis comes from the options that
  \<open>htmlToMarkdown\<close> passes. Text nodes are emitted as they are. The expectations of
  data_processing.test.ts for headings, nested structures and tables hold in the model
  (\<open>serializer_agrees_with_tests\<close>).
\<close>

datatype DocumentNode =
    Element string "(string \<times> string) list" "DocumentNode list"
  | Text string
  | Comment

datatype segment = Inline string | Block string

fun segment_text :: "segment \<Rightarrow> string" where
  "segment_text (Inline s) = s"
| "segment_text (Block s) = s"

text \<open>
  Modelled from the spec: the visible text of a node, which the rows for headings (the
  text's visible length) and for cells (the cell's text content) refer to; turndown's
  code is not under src/. It is the text of the text nodes below the node, in document
  order.
\<close>

fun text_content :: "DocumentNode \<Rightarrow> string" where
  "text_content (Text t) = t"
| "text_content Comment = []"
| "text_content (Element tag attrs children) = concat (map text_content children)"

text \<open>
  Modelled from the spec: the composition of fragments (section 3, MarkdownFragment);
  turndown's own joining of its output is not under src/. Inline segments concatenate
  directly; a block-level segment is separated from its neighbours by a blank line.
\<close>

fun compose :: "segment list \<Rightarrow> string" where
  "compose [] = []"
| "compose [s] = segment_text s"
| "compose (Inline a # Inline b # rest) = a @ compose (Inline b # rest)"
| "compose (a # b # rest) = segment_text a @ ''\<newline>\<newline>'' @ compose (b # rest)"

text \<open>
  Modelled from the spec: what a block container does with the fragment of its children
  (section 4.3, block containers); turndown's rule for block elements is not under src/.
  Block-level segments stay as they are and each maximal run of inline segments becomes
  one block.
\<close>

fun blocks :: "string option \<Rightarrow> segment list \<Rightarrow> segment list" where
  "blocks None [] = []"
| "blocks (Some run) [] = [Block run]"
| "blocks None (Inline a # rest) = blocks (Some a) rest"
| "blocks (Some run) (Inline a # rest) = blocks (Some (run @ a)) rest"
| "blocks None (Block b # rest) = Block b # blocks None rest"
| "blocks (Some run) (Block b # rest) = Block run # Block b # blocks None rest"

definition block_tags :: "string list" where
  "block_tags = [''p'', ''div'', ''section'', ''article'', ''table'', ''tr'']"

text \<open>
  Modelled from the spec: the per-tag rule table of section 4.3; turndown's rules are not
  under src/. A heading is its text and, on the next line, an underline as long as the
  text's visible length. A cell is its text content, as a block of its own; a cell
  without text gives nothing. That each cell is a block of its own, so that a blank line
  stands between the cells of one row as well as between rows, is what
  data_processing.test.ts expects of a table (lines 89-98 and 134-140); tables and rows
  are block containers.
\<close>

fun serialize :: "turndown_options \<Rightarrow> DocumentNode \<Rightarrow> segment list" where
  "serialize opts (Text t) = [Inline t]"
| "serialize opts Comment = []"
| "serialize opts (Element tag attrs children) =
     (let inner = concat (map (serialize opts) children);
          txt = compose inner;
          visible = concat (map text_content children)
      in if tag = ''h1'' then [Block (txt @ ''\<newline>'' @ replicate (length visible) (CHR ''=''))]
         else if tag = ''h2'' then [Block (txt @ ''\<newline>'' @ replicate (length visible) (CHR ''-''))]
         else if tag = ''em'' then [Inline (emDelimiter opts @ txt @ emDelimiter opts)]
         else if tag = ''strong'' then [Inline (''**'' @ txt @ ''**'')]
         else if tag = ''td'' \<or> tag = ''th'' then (if visible = [] then [] else [Block visible])
         else if tag \<in> set block_tags then blocks None inner
         else inner)"

text \<open>
  Modelled from the spec: the serializer applied to the top-level nodes of a document,
  the result of turndown's \<open>turndown\<close> method, which is not under src/.
\<close>

definition serialize_document :: "turndown_options \<Rightarrow> DocumentNode list \<Rightarrow> string" where
  "serialize_document opts nodes = compose (concat (map (serialize opts) nodes))"







section \<open>Lemmas on replacement and on the two expressions\<close>

lemma strip_prefix_Some: "strip_prefix p s = Some t \<longleftrightarrow> s = p @ t"
  by (induction p s rule: strip_prefix.induct) auto

lemma strip_prefix_None: "strip_prefix p s = None \<longleftrightarrow> \<not> prefix p s"
  by (induction p s rule: strip_prefix.induct) auto

lemma strip_prefix_append [simp]: "strip_prefix p (p @ t) = Some t"
  by (simp add: strip_prefix_Some)

lemma replace_global_append:
  assumes nil: "m [] = None"
    and app: "\<And>s. s \<noteq> [] \<Longrightarrow> m (s @ B) = map_option (\<lambda>(r, t). (r, t @ B)) (m s)"
  shows "replace_global m (xs @ B) = replace_global m xs @ replace_global m B"
  using assms
proof (induction m xs rule: replace_global.induct)
  case (1 m)
  then show ?case by simp
next
  case (2 m c cs)
  have eq: "m ((c # cs) @ B) = map_option (\<lambda>(r, t). (r, t @ B)) (m (c # cs))"
    by (rule 2(5)) simp
  show ?case
  proof (cases "m (c # cs)")
    case None
    with eq 2 show ?thesis by simp
  next
    case (Some p)
    obtain r t where p: "p = (r, t)" by (cases p)
    show ?thesis
    proof (cases "length t \<le> length cs")
      case True
      with Some p eq 2 show ?thesis by simp
    next
      case False
      with Some p eq 2 show ?thesis by simp
    qed
  qed
qed

lemma replace_global_skip:
  "m (c # cs) = None \<Longrightarrow> replace_global m (c # cs) = c # replace_global m cs"
  by simp

lemma prefix_append_notin:
  "x \<notin> set kw \<Longrightarrow> prefix kw (u @ x # v) \<longleftrightarrow> prefix kw u"
proof (induction kw arbitrary: u)
  case Nil
  then show ?case by simp
next
  case (Cons k ks)
  then show ?case by (cases u) auto
qed

lemma takeWhile_append_stop: "\<not> P x \<Longrightarrow> takeWhile P (v @ x # w) = takeWhile P v"
  by (induction v) auto

lemma dropWhile_append_stop: "\<not> P x \<Longrightarrow> dropWhile P (v @ x # w) = dropWhile P v @ x # w"
  by (induction v) auto

lemma js_kw_nobt: "kw \<in> set js_keywords \<Longrightarrow> CHR 0x60 \<notin> set kw"
  by (auto simp: js_keywords_def)

lemma py_kw_nobt: "kw \<in> set py_keywords \<Longrightarrow> CHR 0x60 \<notin> set kw"
  by (auto simp: py_keywords_def)

lemma not_space_bt: "\<not> is_space (CHR 0x60)"
  by (simp add: is_space_def)

lemma js_regex_Nil: "js_regex [] = None"
  by (simp add: js_regex_def fence_def)

lemma py_regex_Nil: "py_regex [] = None"
  by (simp add: py_regex_def fence_def)

lemma js_regex_not_bt: "c \<noteq> CHR 0x60 \<Longrightarrow> js_regex (c # cs) = None"
  by (simp add: js_regex_def fence_def)

lemma py_regex_not_bt: "c \<noteq> CHR 0x60 \<Longrightarrow> py_regex (c # cs) = None"
  by (simp add: py_regex_def fence_def)

lemma strip_fence_straddle:
  "s \<noteq> [] \<Longrightarrow> strip_prefix fence (s @ CHR 0x60 # CHR 0x60 # CHR 0x60 # G) = map_option (\<lambda>t. t @ CHR 0x60 # CHR 0x60 # CHR 0x60 # G) (strip_prefix fence s)"
proof -
  assume "s \<noteq> []"
  then obtain a s1 where s: "s = a # s1" by (cases s) auto
  show ?thesis
  proof (cases s1)
    case Nil
    with s show ?thesis by (auto simp: fence_def)
  next
    case (Cons b s2)
    note s1 = this
    show ?thesis
    proof (cases s2)
      case Nil
      with s s1 show ?thesis by (auto simp: fence_def)
    next
      case (Cons c s3)
      note s2 = this
      show ?thesis
      proof (cases s3)
        case Nil
        with s s1 s2 show ?thesis by (auto simp: fence_def)
      next
        case (Cons d s4)
        with s s1 s2 show ?thesis by (auto simp: fence_def)
      qed
    qed
  qed
qed

lemma find_js_straddle:
  "find (\<lambda>kw. prefix kw (u @ CHR 0x60 # G)) js_keywords = find (\<lambda>kw. prefix kw u) js_keywords"
  by (rule find_cong) (simp_all add: prefix_append_notin js_kw_nobt)

lemma js_regex_straddle:
  assumes "s \<noteq> []"
  shows "js_regex (s @ CHR 0x60 # CHR 0x60 # CHR 0x60 # G) = map_option (\<lambda>(r, t). (r, t @ CHR 0x60 # CHR 0x60 # CHR 0x60 # G)) (js_regex s)"
proof (cases "strip_prefix fence s")
  case None
  with assms show ?thesis by (simp add: js_regex_def strip_fence_straddle)
next
  case (Some u)
  have f: "find (\<lambda>kw. prefix kw (u @ CHR 0x60 # CHR 0x60 # CHR 0x60 # G)) js_keywords = find (\<lambda>kw. prefix kw u) js_keywords"
    by (rule find_js_straddle)
  show ?thesis
  proof (cases "find (\<lambda>kw. prefix kw u) js_keywords")
    case None
    with Some f assms show ?thesis by (simp add: js_regex_def strip_fence_straddle)
  next
    case (Some kw)
    then have "prefix kw u" by (auto simp: find_Some_iff)
    then have "length kw \<le> length u" by (rule prefix_length_le)
    with Some \<open>strip_prefix fence s = Some u\<close> f assms show ?thesis
      by (simp add: js_regex_def strip_fence_straddle)
  qed
qed

lemma followed_by_space_straddle:
  assumes "CHR 0x60 \<notin> set kw"
  shows "followed_by_space kw (u @ CHR 0x60 # G) = followed_by_space kw u"
proof (cases "prefix kw u")
  case True
  then obtain v where u: "u = kw @ v" by (auto simp: prefix_def)
  show ?thesis
    by (cases v) (simp_all add: followed_by_space_def u not_space_bt)
next
  case False
  with assms show ?thesis by (simp add: followed_by_space_def prefix_append_notin)
qed

lemma find_py_straddle:
  "find (\<lambda>kw. followed_by_space kw (u @ CHR 0x60 # G)) py_keywords
   = find (\<lambda>kw. followed_by_space kw u) py_keywords"
  by (rule find_cong) (simp_all add: followed_by_space_straddle py_kw_nobt)

lemma py_regex_straddle:
  assumes "s \<noteq> []"
  shows "py_regex (s @ CHR 0x60 # CHR 0x60 # CHR 0x60 # G) = map_option (\<lambda>(r, t). (r, t @ CHR 0x60 # CHR 0x60 # CHR 0x60 # G)) (py_regex s)"
proof (cases "strip_prefix fence s")
  case None
  with assms show ?thesis by (simp add: py_regex_def strip_fence_straddle)
next
  case (Some u)
  have f: "find (\<lambda>kw. followed_by_space kw (u @ CHR 0x60 # CHR 0x60 # CHR 0x60 # G)) py_keywords
           = find (\<lambda>kw. followed_by_space kw u) py_keywords"
    by (rule find_py_straddle)
  show ?thesis
  proof (cases "find (\<lambda>kw. followed_by_space kw u) py_keywords")
    case None
    with Some f assms show ?thesis by (simp add: py_regex_def strip_fence_straddle)
  next
    case (Some kw)
    then have "followed_by_space kw u" by (auto simp: find_Some_iff)
    then obtain w v where u: "u = kw @ w # v" "is_space w"
      by (auto simp: followed_by_space_def prefix_def split: list.splits)
    have t: "takeWhile is_space (v @ CHR 0x60 # CHR 0x60 # CHR 0x60 # G) = takeWhile is_space v"
      by (rule takeWhile_append_stop) (rule not_space_bt)
    have d: "dropWhile is_space (v @ CHR 0x60 # CHR 0x60 # CHR 0x60 # G) = dropWhile is_space v @ CHR 0x60 # CHR 0x60 # CHR 0x60 # G"
      by (rule dropWhile_append_stop) (rule not_space_bt)
    from Some \<open>strip_prefix fence s = Some u\<close> f assms u t d show ?thesis
      by (simp add: py_regex_def strip_fence_straddle)
  qed
qed

lemma js_pass_append:
  "replace_global js_regex (A @ CHR 0x60 # CHR 0x60 # CHR 0x60 # G)
   = replace_global js_regex A @ replace_global js_regex (CHR 0x60 # CHR 0x60 # CHR 0x60 # G)"
  by (rule replace_global_append) (simp_all add: js_regex_Nil js_regex_straddle)

lemma py_pass_append:
  "replace_global py_regex (A @ CHR 0x60 # CHR 0x60 # CHR 0x60 # G)
   = replace_global py_regex A @ replace_global py_regex (CHR 0x60 # CHR 0x60 # CHR 0x60 # G)"
  by (rule replace_global_append) (simp_all add: py_regex_Nil py_regex_straddle)

lemma js_pass_no_backtick:
  "CHR 0x60 \<notin> set w \<Longrightarrow> replace_global js_regex (w @ t) = w @ replace_global js_regex t"
  by (induction w) (auto simp: js_regex_not_bt)

lemma py_pass_no_backtick:
  "CHR 0x60 \<notin> set w \<Longrightarrow> replace_global py_regex (w @ t) = w @ replace_global py_regex t"
  by (induction w) (auto simp: py_regex_not_bt)

lemma py_pass_spaces:
  "replace_global py_regex t
   = takeWhile is_space t @ replace_global py_regex (dropWhile is_space t)"
proof (induction t)
  case Nil
  then show ?case by simp
next
  case (Cons c cs)
  show ?case
  proof (cases "is_space c")
    case True
    then have "c \<noteq> CHR 0x60" using not_space_bt by auto
    with True Cons show ?thesis by (simp add: py_regex_not_bt)
  next
    case False
    then show ?thesis by simp
  qed
qed

lemma js_pass_fence:
  "replace_global js_regex (fence @ body)
   = (case find (\<lambda>kw. prefix kw body) js_keywords of
        None \<Rightarrow> fence @ replace_global js_regex body
      | Some kw \<Rightarrow> ''```javascript\<newline>'' @ replace_global js_regex body)"
proof (cases "find (\<lambda>kw. prefix kw body) js_keywords")
  case None
  then have a: "js_regex (fence @ body) = None"
    by (simp add: js_regex_def)
  have b: "js_regex (CHR 0x60 # CHR 0x60 # CHR ''\<newline>'' # body) = None"
    by (simp add: js_regex_def fence_def)
  have c: "js_regex (CHR 0x60 # CHR ''\<newline>'' # body) = None"
    by (simp add: js_regex_def fence_def)
  have d: "js_regex (CHR ''\<newline>'' # body) = None"
    by (simp add: js_regex_def fence_def)
  from a have a': "js_regex (CHR 0x60 # CHR 0x60 # CHR 0x60 # CHR ''\<newline>'' # body) = None"
    by (simp add: fence_def)
  from None a' b c d show ?thesis by (simp add: fence_def)
next
  case (Some kw)
  then have kw: "kw \<in> set js_keywords" and p: "prefix kw body"
    by (auto simp: find_Some_iff)
  from p obtain rest where body: "body = kw @ rest" by (auto simp: prefix_def)
  have m: "js_regex (CHR 0x60 # CHR 0x60 # CHR 0x60 # CHR ''\<newline>'' # body)
           = Some (''```javascript\<newline>'' @ kw, rest)"
    using Some body strip_prefix_append [of fence body] by (simp add: js_regex_def fence_def)
  have "replace_global js_regex body = kw @ replace_global js_regex rest"
    unfolding body by (rule js_pass_no_backtick) (rule js_kw_nobt [OF kw])
  with Some m body show ?thesis by (simp add: fence_def)
qed

lemma py_pass_fence:
  "replace_global py_regex (fence @ body)
   = (case find (\<lambda>kw. followed_by_space kw body) py_keywords of
        None \<Rightarrow> fence @ replace_global py_regex body
      | Some kw \<Rightarrow> ''```python\<newline>'' @ replace_global py_regex body)"
proof (cases "find (\<lambda>kw. followed_by_space kw body) py_keywords")
  case None
  then have a: "py_regex (fence @ body) = None"
    by (simp add: py_regex_def)
  have b: "py_regex (CHR 0x60 # CHR 0x60 # CHR ''\<newline>'' # body) = None"
    by (simp add: py_regex_def fence_def)
  have c: "py_regex (CHR 0x60 # CHR ''\<newline>'' # body) = None"
    by (simp add: py_regex_def fence_def)
  have d: "py_regex (CHR ''\<newline>'' # body) = None"
    by (simp add: py_regex_def fence_def)
  from a have a': "py_regex (CHR 0x60 # CHR 0x60 # CHR 0x60 # CHR ''\<newline>'' # body) = None"
    by (simp add: fence_def)
  from None a' b c d show ?thesis by (simp add: fence_def)
next
  case (Some kw)
  then have kw: "kw \<in> set py_keywords" and p: "followed_by_space kw body"
    by (auto simp: find_Some_iff)
  from p obtain w v where body: "body = kw @ w # v" and w: "is_space w"
    by (auto simp: followed_by_space_def prefix_def split: list.splits)
  have m: "py_regex (CHR 0x60 # CHR 0x60 # CHR 0x60 # CHR ''\<newline>'' # body)
           = Some (''```python\<newline>'' @ kw @ w # takeWhile is_space v, dropWhile is_space v)"
    using Some body w strip_prefix_append [of fence body] by (simp add: py_regex_def fence_def)
  have "replace_global py_regex body = kw @ replace_global py_regex (w # v)"
    unfolding body by (rule py_pass_no_backtick) (rule py_kw_nobt [OF kw])
  also have "replace_global py_regex (w # v)
             = w # takeWhile is_space v @ replace_global py_regex (dropWhile is_space v)"
    using py_pass_spaces [of "w # v"] w by simp
  finally have r: "replace_global py_regex body
     = kw @ w # takeWhile is_space v @ replace_global py_regex (dropWhile is_space v)" .
  have len: "length (dropWhile is_space v) \<le> Suc (Suc (Suc (length body)))"
    using length_dropWhile_le [of is_space v] by (simp add: body)
  from Some m r len show ?thesis by (simp add: fence_def)
qed

lemma py_pass_js_tag:
  "replace_global py_regex (''```javascript\<newline>'' @ J)
   = ''```javascript\<newline>'' @ replace_global py_regex J"
proof -
  have a: "py_regex (''```javascript\<newline>'' @ J) = None"
    by (simp add: py_regex_def fence_def)
  have b: "py_regex (''``javascript\<newline>'' @ J) = None"
    by (simp add: py_regex_def fence_def)
  have c: "py_regex (''`javascript\<newline>'' @ J) = None"
    by (simp add: py_regex_def fence_def)
  have d: "replace_global py_regex (''javascript\<newline>'' @ J)
           = ''javascript\<newline>'' @ replace_global py_regex J"
    by (rule py_pass_no_backtick) simp
  from a b c d show ?thesis by simp
qed

lemma js_pass_split:
  "replace_global js_regex body
   = takeWhile (\<lambda>c. c \<noteq> CHR 0x60) body
     @ replace_global js_regex (dropWhile (\<lambda>c. c \<noteq> CHR 0x60) body)"
proof (induction body)
  case Nil
  then show ?case by simp
next
  case (Cons a body)
  show ?case
  proof (cases "a = CHR 0x60")
    case True
    then show ?thesis by simp
  next
    case False
    with Cons show ?thesis by (simp add: js_regex_not_bt)
  qed
qed

lemma js_regex_replacement:
  "js_regex s = Some (r, t) \<Longrightarrow> \<exists>r'. r = CHR 0x60 # r'"
  by (auto simp: js_regex_def split: option.splits)

lemma js_pass_head:
  "\<exists>t. replace_global js_regex (CHR 0x60 # cs) = CHR 0x60 # t"
proof (cases "js_regex (CHR 0x60 # cs)")
  case None
  then show ?thesis by simp
next
  case (Some p)
  obtain r t where p: "p = (r, t)" by (cases p)
  with Some obtain r' where "r = CHR 0x60 # r'" using js_regex_replacement by blast
  with Some p show ?thesis by simp
qed

lemma followed_by_space_js_pass:
  assumes "CHR 0x60 \<notin> set kw"
  shows "followed_by_space kw (replace_global js_regex body) = followed_by_space kw body"
proof -
  let ?u = "takeWhile (\<lambda>c. c \<noteq> CHR 0x60) body"
  let ?v = "dropWhile (\<lambda>c. c \<noteq> CHR 0x60) body"
  have body: "body = ?u @ ?v" by simp
  show ?thesis
  proof (cases ?v)
    case Nil
    with body have "?u = body" by (metis append_Nil2)
    with Nil have "replace_global js_regex body = body @ replace_global js_regex []"
      using js_pass_split [of body] by metis
    then show ?thesis by (simp add: js_regex_Nil)
  next
    case (Cons x v')
    then have "x = CHR 0x60" using hd_dropWhile [of "\<lambda>c. c \<noteq> CHR 0x60" body] by auto
    with Cons have v: "?v = CHR 0x60 # v'" by simp
    obtain t where t: "replace_global js_regex (CHR 0x60 # v') = CHR 0x60 # t"
      using js_pass_head by blast
    have "followed_by_space kw (replace_global js_regex body)
          = followed_by_space kw (?u @ CHR 0x60 # t)"
      using js_pass_split [of body] v t by simp
    also have "\<dots> = followed_by_space kw ?u"
      by (rule followed_by_space_straddle [OF assms])
    also have "\<dots> = followed_by_space kw (?u @ CHR 0x60 # v')"
      by (rule followed_by_space_straddle [OF assms, symmetric])
    also have "\<dots> = followed_by_space kw body"
      using body v by simp
    finally show ?thesis .
  qed
qed

lemma find_py_js_pass:
  "find (\<lambda>kw. followed_by_space kw (replace_global js_regex body)) py_keywords
   = find (\<lambda>kw. followed_by_space kw body) py_keywords"
  by (rule find_cong) (simp_all add: followed_by_space_js_pass py_kw_nobt)

lemma classify_fence:
  "classify (pre @ fence @ body)
   = classify pre @ ''```'' @ spec_language_tag body @ ''\<newline>'' @ classify body"
proof -
  let ?js = "replace_global js_regex" and ?py = "replace_global py_regex"
  have 1: "?js (pre @ fence @ body) = ?js pre @ ?js (fence @ body)"
    using js_pass_append [of pre "CHR ''\<newline>'' # body"] by (simp add: fence_def)
  show ?thesis
  proof (cases "find (\<lambda>kw. prefix kw body) js_keywords")
    case (Some kw)
    then have tag: "spec_language_tag body = ''javascript''"
      by (auto simp: spec_language_tag_def list_ex_iff find_Some_iff)
    have "?py (?js (pre @ fence @ body)) = ?py (?js pre @ ''```javascript\<newline>'' @ ?js body)"
      using 1 Some by (simp add: js_pass_fence)
    also have "\<dots> = ?py (?js pre) @ ?py (''```javascript\<newline>'' @ ?js body)"
      using py_pass_append [of "?js pre" "''javascript\<newline>'' @ ?js body"] by simp
    also have "\<dots> = ?py (?js pre) @ ''```javascript\<newline>'' @ ?py (?js body)"
      by (simp only: py_pass_js_tag)
    finally show ?thesis by (simp add: classify_def tag)
  next
    case None
    then have nojs: "\<not> list_ex (\<lambda>kw. prefix kw body) js_keywords"
      by (simp add: find_None_iff list_ex_iff)
    have "?py (?js (pre @ fence @ body)) = ?py (?js pre @ fence @ ?js body)"
      using 1 None by (simp add: js_pass_fence)
    also have "\<dots> = ?py (?js pre) @ ?py (fence @ ?js body)"
      using py_pass_append [of "?js pre" "CHR ''\<newline>'' # ?js body"] by (simp add: fence_def)
    finally have 2: "classify (pre @ fence @ body) = classify pre @ ?py (fence @ ?js body)"
      by (simp add: classify_def)
    show ?thesis
    proof (cases "find (\<lambda>kw. followed_by_space kw body) py_keywords")
      case None
      then have "spec_language_tag body = []"
        using nojs by (simp add: spec_language_tag_def find_None_iff list_ex_iff)
      moreover have "?py (fence @ ?js body) = fence @ ?py (?js body)"
        using None by (simp add: py_pass_fence find_py_js_pass)
      ultimately show ?thesis using 2
        by (simp add: classify_def fence_def)
    next
      case (Some kw)
      then have "spec_language_tag body = ''python''"
        using nojs by (auto simp: spec_language_tag_def find_Some_iff list_ex_iff)
      moreover have "?py (fence @ ?js body) = ''```python\<newline>'' @ ?py (?js body)"
        using Some by (simp add: py_pass_fence find_py_js_pass)
      ultimately show ?thesis using 2
        by (simp add: classify_def)
    qed
  qed
qed

section \<open>Lemmas on the script-removing expression\<close>

lemma lower_lt [simp]: "lower c = CHR ''<'' \<longleftrightarrow> c = CHR ''<''"
  by (simp add: lower_def)

lemma lt_lower [simp]: "CHR ''<'' = lower c \<longleftrightarrow> c = CHR ''<''"
  using lower_lt [of c] by (simp only: eq_commute [of "CHR ''<''"])










text \<open>
  On a text without \<open><\<close>, the empty text among them, the script-removing expression
  matches nowhere: \<open>htmlToMarkdown\<close> hands the text to the converter as it is. What the
  converter makes of it is not decided here.
\<close>

lemma script_regex_not_lt: "c \<noteq> CHR ''<'' \<Longrightarrow> script_regex (c # cs) = None"
  by (simp add: script_regex_def)

lemma script_pass_tag_free: "CHR ''<'' \<notin> set s \<Longrightarrow> replace_global script_regex s = s"
proof (induction s)
  case Nil
  then show ?case by (simp add: script_regex_def)
next
  case (Cons c cs)
  then have "c \<noteq> CHR ''<''" by auto
  then have "script_regex (c # cs) = None" by (rule script_regex_not_lt)
  with Cons show ?case by simp
qed

lemma htmlToMarkdown_tag_free:
  "CHR ''<'' \<notin> set s \<Longrightarrow> htmlToMarkdown turndown s = turndown options s"
  by (simp add: htmlToMarkdown_def script_pass_tag_free)




section \<open>Lemmas on positions that no longer match\<close>

lemma no_match_Nil: "no_match m [] \<longleftrightarrow> m [] = None"
  by (simp add: no_match_def)

lemma no_match_Cons: "no_match m (c # cs) \<longleftrightarrow> m (c # cs) = None \<and> no_match m cs"
  by (auto simp: no_match_def)

lemma replace_global_no_match: "no_match m s \<Longrightarrow> replace_global m s = s"
  by (induction s) (simp_all add: no_match_Nil no_match_Cons)

lemma js_regex_iff:
  "js_regex s \<noteq> None \<longleftrightarrow> (\<exists>B. s = fence @ B \<and> (\<exists>kw \<in> set js_keywords. prefix kw B))"
proof -
  have "js_regex s \<noteq> None
        \<longleftrightarrow> (\<exists>B. strip_prefix fence s = Some B \<and> find (\<lambda>kw. prefix kw B) js_keywords \<noteq> None)"
    by (simp add: js_regex_def split: option.splits)
  then show ?thesis by (simp add: strip_prefix_Some find_None_iff Bex_def)
qed

lemma py_regex_iff:
  "py_regex s \<noteq> None
   \<longleftrightarrow> (\<exists>B. s = fence @ B \<and> (\<exists>kw \<in> set py_keywords. followed_by_space kw B))"
proof -
  have "py_regex s \<noteq> None
        \<longleftrightarrow> (\<exists>B. strip_prefix fence s = Some B
                 \<and> find (\<lambda>kw. followed_by_space kw B) py_keywords \<noteq> None)"
    by (simp add: py_regex_def split: option.splits)
  then show ?thesis by (simp add: strip_prefix_Some find_None_iff Bex_def)
qed

lemma fence_matcher_js: "fence_matcher js_regex"
  unfolding fence_matcher_def
proof (intro conjI allI impI)
  show "js_regex [] = None" by (rule js_regex_Nil)
next
  fix c :: char and cs :: string
  assume "c \<noteq> CHR 0x60"
  then show "js_regex (c # cs) = None" by (rule js_regex_not_bt)
next
  fix s r rest
  assume m: "js_regex s = Some (r, rest)"
  then obtain B kw where s: "s = fence @ B" and f: "find (\<lambda>kw. prefix kw B) js_keywords = Some kw"
    and r: "r = ''```javascript\<newline>'' @ kw" and rest: "rest = drop (length kw) B"
    by (auto simp: js_regex_def strip_prefix_Some split: option.splits)
  from f have kw: "kw \<in> set js_keywords" by (auto simp: find_Some_iff)
  have "suffix (drop (length kw) B) (fence @ B)"
    using suffix_drop [of "length kw" B] by (simp add: suffix_append)
  then show "suffix rest s" by (simp add: s rest)
  show "length rest < length s" by (simp add: s rest fence_def)
  show "\<exists>l w. r = CHR 0x60 # CHR 0x60 # CHR 0x60 # l # w
          \<and> l \<noteq> CHR 0x60 \<and> l \<noteq> CHR ''\<newline>'' \<and> CHR 0x60 \<notin> set w"
    using js_kw_nobt [OF kw] by (simp add: r)
qed

lemma fence_matcher_py: "fence_matcher py_regex"
  unfolding fence_matcher_def
proof (intro conjI allI impI)
  show "py_regex [] = None" by (rule py_regex_Nil)
next
  fix c :: char and cs :: string
  assume "c \<noteq> CHR 0x60"
  then show "py_regex (c # cs) = None" by (rule py_regex_not_bt)
next
  fix s r rest
  assume m: "py_regex s = Some (r, rest)"
  then obtain B kw where s: "s = fence @ B"
    and f: "find (\<lambda>kw. followed_by_space kw B) py_keywords = Some kw"
    and r: "r = ''```python\<newline>'' @ kw @ takeWhile is_space (drop (length kw) B)"
    and rest: "rest = dropWhile is_space (drop (length kw) B)"
    by (auto simp: py_regex_def strip_prefix_Some split: option.splits)
  from f have kw: "kw \<in> set py_keywords" by (auto simp: find_Some_iff)
  have "suffix (dropWhile is_space (drop (length kw) B)) (drop (length kw) B)"
    by (rule suffix_dropWhile)
  also have "suffix (drop (length kw) B) B" by (rule suffix_drop)
  finally have "suffix (dropWhile is_space (drop (length kw) B)) (fence @ B)"
    by (simp add: suffix_append)
  then show "suffix rest s" by (simp add: s rest)
  have "length (dropWhile is_space (drop (length kw) B)) \<le> length B"
    using length_dropWhile_le [of is_space "drop (length kw) B"] by simp
  then show "length rest < length s" by (simp add: s rest fence_def)
  have "CHR 0x60 \<notin> set (takeWhile is_space (drop (length kw) B))"
    using set_takeWhileD [of "CHR 0x60" is_space] not_space_bt by blast
  then show "\<exists>l w. r = CHR 0x60 # CHR 0x60 # CHR 0x60 # l # w
          \<and> l \<noteq> CHR 0x60 \<and> l \<noteq> CHR ''\<newline>'' \<and> CHR 0x60 \<notin> set w"
    using py_kw_nobt [OF kw] by (simp add: r)
qed

lemma fence_matcher_Nil: "fence_matcher m \<Longrightarrow> m [] = None"
  unfolding fence_matcher_def by blast

lemma fence_matcher_skip: "fence_matcher m \<Longrightarrow> c \<noteq> CHR 0x60 \<Longrightarrow> m (c # cs) = None"
  unfolding fence_matcher_def by blast

lemma pass_Nil: "fence_matcher m \<Longrightarrow> replace_global m [] = []"
  by (simp add: fence_matcher_Nil)

lemma pass_skip:
  "fence_matcher m \<Longrightarrow> c \<noteq> CHR 0x60 \<Longrightarrow> replace_global m (c # cs) = c # replace_global m cs"
  by (simp add: fence_matcher_skip)

lemma fence_matcher_Some:
  assumes "fence_matcher m" and "m s = Some (r, rest)"
  shows "suffix rest s" and "length rest < length s"
    and "\<exists>l w. r = CHR 0x60 # CHR 0x60 # CHR 0x60 # l # w
           \<and> l \<noteq> CHR 0x60 \<and> l \<noteq> CHR ''\<newline>'' \<and> CHR 0x60 \<notin> set w"
proof -
  from assms(1) have "\<forall>s r rest. m s = Some (r, rest) \<longrightarrow>
           suffix rest s \<and> length rest < length s
           \<and> (\<exists>l w. r = CHR 0x60 # CHR 0x60 # CHR 0x60 # l # w
                  \<and> l \<noteq> CHR 0x60 \<and> l \<noteq> CHR ''\<newline>'' \<and> CHR 0x60 \<notin> set w)"
    unfolding fence_matcher_def by (elim conjE)
  then have *: "suffix rest s \<and> length rest < length s
           \<and> (\<exists>l w. r = CHR 0x60 # CHR 0x60 # CHR 0x60 # l # w
                  \<and> l \<noteq> CHR 0x60 \<and> l \<noteq> CHR ''\<newline>'' \<and> CHR 0x60 \<notin> set w)"
    using assms(2) by (elim allE [of _ s] allE [of _ r] allE [of _ rest] impE)
  from * show "suffix rest s" by (elim conjE)
  from * show "length rest < length s" by (elim conjE)
  from * show "\<exists>l w. r = CHR 0x60 # CHR 0x60 # CHR 0x60 # l # w
           \<and> l \<noteq> CHR 0x60 \<and> l \<noteq> CHR ''\<newline>'' \<and> CHR 0x60 \<notin> set w" by (elim conjE)
qed

lemma pass_match:
  assumes "fence_matcher m" and "m (c # cs) = Some (r, rest)"
  shows "replace_global m (c # cs) = r @ replace_global m rest"
  using fence_matcher_Some(2) [OF assms] assms(2) by simp

lemma pass_split:
  assumes "fence_matcher m"
  shows "replace_global m s
         = takeWhile (\<lambda>c. c \<noteq> CHR 0x60) s @ replace_global m (dropWhile (\<lambda>c. c \<noteq> CHR 0x60) s)"
proof (induction s)
  case Nil
  then show ?case by simp
next
  case (Cons a s)
  show ?case
  proof (cases "a = CHR 0x60")
    case True
    then show ?thesis by simp
  next
    case False
    with Cons show ?thesis
      by (simp del: replace_global.simps add: pass_skip [OF assms False])
  qed
qed

lemma pass_head:
  assumes "fence_matcher m"
  shows "\<exists>t. replace_global m (CHR 0x60 # cs) = CHR 0x60 # t"
proof (cases "m (CHR 0x60 # cs)")
  case None
  then show ?thesis by simp
next
  case (Some p)
  obtain r rest where p: "p = (r, rest)" by (cases p)
  with Some assms obtain r' where "r = CHR 0x60 # r'"
    using fence_matcher_Some(3) [of m "CHR 0x60 # cs" r rest] by auto
  with Some p show ?thesis
    using pass_match [OF assms, of "CHR 0x60" cs r rest] by (simp del: replace_global.simps)
qed

lemma pass_shape:
  assumes "fence_matcher m"
  obtains u v where "s = u @ v" and "CHR 0x60 \<notin> set u"
    and "replace_global m s = u @ replace_global m v"
    and "v = [] \<or> (\<exists>v' t. v = CHR 0x60 # v' \<and> replace_global m v = CHR 0x60 # t)"
proof -
  let ?u = "takeWhile (\<lambda>c. c \<noteq> CHR 0x60) s" and ?v = "dropWhile (\<lambda>c. c \<noteq> CHR 0x60) s"
  have 1: "s = ?u @ ?v" by simp
  have 2: "CHR 0x60 \<notin> set ?u" using set_takeWhileD [of "CHR 0x60" "\<lambda>c. c \<noteq> CHR 0x60" s] by blast
  have 3: "replace_global m s = ?u @ replace_global m ?v" by (rule pass_split [OF assms])
  have 4: "?v = [] \<or> (\<exists>v' t. ?v = CHR 0x60 # v' \<and> replace_global m ?v = CHR 0x60 # t)"
  proof (cases ?v)
    case Nil
    then show ?thesis by simp
  next
    case (Cons x v')
    then have "x = CHR 0x60" using hd_dropWhile [of "\<lambda>c. c \<noteq> CHR 0x60" s] by auto
    with Cons pass_head [OF assms, of v'] show ?thesis by auto
  qed
  from 1 2 3 4 show ?thesis by (rule that)
qed

lemma prefix_pass:
  assumes "fence_matcher m" and "CHR 0x60 \<notin> set kw"
  shows "prefix kw (replace_global m s) = prefix kw s"
proof -
  obtain u v where s: "s = u @ v" and p: "replace_global m s = u @ replace_global m v"
    and v: "v = [] \<or> (\<exists>v' t. v = CHR 0x60 # v' \<and> replace_global m v = CHR 0x60 # t)"
    by (rule pass_shape [OF assms(1), of s])
  from v show ?thesis
  proof
    assume "v = []"
    with s p show ?thesis by (simp add: pass_Nil [OF assms(1)] del: replace_global.simps)
  next
    assume "\<exists>v' t. v = CHR 0x60 # v' \<and> replace_global m v = CHR 0x60 # t"
    then obtain v' t where "v = CHR 0x60 # v'" "replace_global m v = CHR 0x60 # t" by blast
    with s p show ?thesis by (simp add: prefix_append_notin [OF assms(2)])
  qed
qed

lemma followed_by_space_pass:
  assumes "fence_matcher m" and "CHR 0x60 \<notin> set kw"
  shows "followed_by_space kw (replace_global m s) = followed_by_space kw s"
proof -
  obtain u v where s: "s = u @ v" and p: "replace_global m s = u @ replace_global m v"
    and v: "v = [] \<or> (\<exists>v' t. v = CHR 0x60 # v' \<and> replace_global m v = CHR 0x60 # t)"
    by (rule pass_shape [OF assms(1), of s])
  from v show ?thesis
  proof
    assume "v = []"
    with s p show ?thesis by (simp add: pass_Nil [OF assms(1)] del: replace_global.simps)
  next
    assume "\<exists>v' t. v = CHR 0x60 # v' \<and> replace_global m v = CHR 0x60 # t"
    then obtain v' t where "v = CHR 0x60 # v'" "replace_global m v = CHR 0x60 # t" by blast
    with s p show ?thesis by (simp add: followed_by_space_straddle [OF assms(2)])
  qed
qed

lemma pass_uncons:
  assumes fm: "fence_matcher m"
    and eq: "replace_global m cs = x # Y"
    and np: "\<not> prefix ''```'' (x # Y)"
  shows "\<exists>cs'. cs = x # cs' \<and> Y = replace_global m cs'"
proof (cases cs)
  case Nil
  with eq show ?thesis by (simp add: pass_Nil [OF fm] del: replace_global.simps)
next
  case (Cons a cs')
  show ?thesis
  proof (cases "m (a # cs')")
    case None
    with eq Cons show ?thesis by simp
  next
    case (Some p)
    obtain r rest where p: "p = (r, rest)" by (cases p)
    with Some fm obtain l w where r: "r = CHR 0x60 # CHR 0x60 # CHR 0x60 # l # w"
      using fence_matcher_Some(3) [of m "a # cs'" r rest] by auto
    from Some p have "replace_global m (a # cs') = r @ replace_global m rest"
      by (intro pass_match [OF fm]) simp
    with eq Cons r have "prefix ''```'' (x # Y)" by simp
    with np show ?thesis by contradiction
  qed
qed

lemma pass_fence_tail:
  assumes fm: "fence_matcher m"
    and eq: "replace_global m cs = CHR 0x60 # CHR 0x60 # CHR ''\<newline>'' # B'"
  shows "\<exists>B. cs = CHR 0x60 # CHR 0x60 # CHR ''\<newline>'' # B \<and> B' = replace_global m B"
proof -
  from pass_uncons [OF fm eq] obtain cs1
    where cs: "cs = CHR 0x60 # cs1"
      and eq1: "CHR 0x60 # CHR ''\<newline>'' # B' = replace_global m cs1"
    by auto
  from pass_uncons [OF fm eq1 [symmetric]] obtain cs2
    where cs1: "cs1 = CHR 0x60 # cs2" and eq2: "CHR ''\<newline>'' # B' = replace_global m cs2"
    by auto
  from pass_uncons [OF fm eq2 [symmetric]] obtain cs3
    where cs2: "cs2 = CHR ''\<newline>'' # cs3" and eq3: "B' = replace_global m cs3"
    by auto
  from cs cs1 cs2 eq3 show ?thesis by simp
qed

lemma js_regex_after_pass:
  assumes fm: "fence_matcher m" and none: "js_regex (c # cs) = None"
  shows "js_regex (c # replace_global m cs) = None"
proof (rule ccontr)
  assume "js_regex (c # replace_global m cs) \<noteq> None"
  then obtain Z kw where z: "c # replace_global m cs = fence @ Z"
    and kw: "kw \<in> set js_keywords" and p: "prefix kw Z"
    using js_regex_iff by blast
  from z have c: "c = CHR 0x60"
    and eq: "replace_global m cs = CHR 0x60 # CHR 0x60 # CHR ''\<newline>'' # Z"
    by (simp_all add: fence_def)
  from pass_fence_tail [OF fm eq] obtain B
    where cs: "cs = CHR 0x60 # CHR 0x60 # CHR ''\<newline>'' # B" and Z: "Z = replace_global m B"
    by blast
  from p Z have "prefix kw B"
    using prefix_pass [OF fm js_kw_nobt [OF kw], of B] by simp
  moreover from c cs have "c # cs = fence @ B" by (simp add: fence_def)
  ultimately have "js_regex (c # cs) \<noteq> None"
    using kw js_regex_iff by blast
  with none show False by contradiction
qed

lemma py_regex_after_pass:
  assumes fm: "fence_matcher m" and none: "py_regex (c # cs) = None"
  shows "py_regex (c # replace_global m cs) = None"
proof (rule ccontr)
  assume "py_regex (c # replace_global m cs) \<noteq> None"
  then obtain Z kw where z: "c # replace_global m cs = fence @ Z"
    and kw: "kw \<in> set py_keywords" and p: "followed_by_space kw Z"
    using py_regex_iff by blast
  from z have c: "c = CHR 0x60"
    and eq: "replace_global m cs = CHR 0x60 # CHR 0x60 # CHR ''\<newline>'' # Z"
    by (simp_all add: fence_def)
  from pass_fence_tail [OF fm eq] obtain B
    where cs: "cs = CHR 0x60 # CHR 0x60 # CHR ''\<newline>'' # B" and Z: "Z = replace_global m B"
    by blast
  from p Z have "followed_by_space kw B"
    using followed_by_space_pass [OF fm py_kw_nobt [OF kw], of B] by simp
  moreover from c cs have "c # cs = fence @ B" by (simp add: fence_def)
  ultimately have "py_regex (c # cs) \<noteq> None"
    using kw py_regex_iff by blast
  with none show False by contradiction
qed

lemma no_match_no_backtick:
  assumes "fence_matcher q" and "CHR 0x60 \<notin> set w" and "no_match q t" 
  shows "no_match q (w @ t)"
  using assms(2)
proof (induction w)
  case Nil
  with assms(3) show ?case by simp
next
  case (Cons a w)
  then have "a \<noteq> CHR 0x60" by auto
  with assms(1) have "q (a # w @ t) = None"
    by (rule fence_matcher_skip)
  with Cons show ?case by (simp add: no_match_Cons)
qed

lemma no_match_tagged:
  assumes q: "q = js_regex \<or> q = py_regex"
    and l: "l \<noteq> CHR 0x60" "l \<noteq> CHR ''\<newline>''" and w: "CHR 0x60 \<notin> set w"
    and t: "no_match q t"
  shows "no_match q (CHR 0x60 # CHR 0x60 # CHR 0x60 # l # w @ t)"
proof -
  from q have fm: "fence_matcher q" using fence_matcher_js fence_matcher_py by auto
  have "no_match q ((l # w) @ t)"
    using fm _ t by (rule no_match_no_backtick) (use l w in auto)
  moreover have "q (CHR 0x60 # l # w @ t) = None"
    using q l by (auto simp: js_regex_def py_regex_def fence_def)
  moreover have "q (CHR 0x60 # CHR 0x60 # l # w @ t) = None"
    using q l by (auto simp: js_regex_def py_regex_def fence_def)
  moreover have "q (CHR 0x60 # CHR 0x60 # CHR 0x60 # l # w @ t) = None"
    using q l by (auto simp: js_regex_def py_regex_def fence_def)
  ultimately show ?thesis by (simp add: no_match_Cons)
qed

lemma no_match_after_pass:
  assumes fm: "fence_matcher m" and q: "q = js_regex \<or> q = py_regex"
  shows "(\<And>b. suffix b xs \<Longrightarrow> q b \<noteq> None \<Longrightarrow> m b \<noteq> None) \<Longrightarrow> no_match q (replace_global m xs)"
proof (induction xs rule: length_induct)
  case (1 xs)
  from q have fq: "fence_matcher q" using fence_matcher_js fence_matcher_py by auto
  show ?case
  proof (cases xs)
    case Nil
    with fm fq show ?thesis
      by (simp add: pass_Nil fence_matcher_Nil no_match_Nil del: replace_global.simps)
  next
    case (Cons c cs)
    show ?thesis
    proof (cases "m (c # cs)")
      case None
      have "q (c # cs) = None"
      proof (rule ccontr)
        assume "q (c # cs) \<noteq> None"
        then have "m (c # cs) \<noteq> None" using 1(2) [of "c # cs"] Cons by blast
        with None show False by contradiction
      qed
      then have "q (c # replace_global m cs) = None"
        using q js_regex_after_pass [OF fm, of c cs] py_regex_after_pass [OF fm, of c cs] by auto
      moreover have "no_match q (replace_global m cs)"
      proof -
        have "\<And>b. suffix b cs \<Longrightarrow> q b \<noteq> None \<Longrightarrow> m b \<noteq> None"
          using 1(2) Cons by (simp add: suffix_ConsI)
        with 1(1) Cons show ?thesis by simp
      qed
      ultimately show ?thesis using None Cons by (simp add: no_match_Cons)
    next
      case (Some p)
      obtain r rest where p: "p = (r, rest)" by (cases p)
      with Some have msome: "m (c # cs) = Some (r, rest)" by simp
      have suf: "suffix rest (c # cs)" and len: "length rest < length (c # cs)"
        using fence_matcher_Some(1,2) [OF fm msome] by simp_all
      obtain l w where r: "r = CHR 0x60 # CHR 0x60 # CHR 0x60 # l # w"
        and l: "l \<noteq> CHR 0x60" "l \<noteq> CHR ''\<newline>''" and w: "CHR 0x60 \<notin> set w"
        using fence_matcher_Some(3) [OF fm msome] by auto
      have "\<And>b. suffix b rest \<Longrightarrow> q b \<noteq> None \<Longrightarrow> m b \<noteq> None"
        using 1(2) Cons suf suffix_order.trans by blast
      with 1(1) len Cons have "no_match q (replace_global m rest)" by simp
      then have "no_match q (CHR 0x60 # CHR 0x60 # CHR 0x60 # l # w @ replace_global m rest)"
        using q l w by (intro no_match_tagged)
      with Some p r Cons show ?thesis
        using pass_match [OF fm, of c cs r rest] by (simp del: replace_global.simps)
    qed
  qed
qed

lemma no_match_suffix: "no_match q xs \<Longrightarrow> suffix b xs \<Longrightarrow> q b = None"
  by (simp add: no_match_def list_all_iff)

section \<open>Lemmas on the serializer\<close>






lemma serializer_agrees_with_tests:
  "serialize_document options [Element ''h1'' [] [Text ''Title''], Element ''h2'' [] [Text ''Subtitle'']]
     = ''Title\<newline>=====\<newline>\<newline>Subtitle\<newline>--------''"
  "serialize_document options
     [Element ''div'' []
        [Element ''h1'' [] [Text ''Title''],
         Element ''p'' [] [Text ''Paragraph with '', Element ''strong'' [] [Text ''bold''],
                           Text '' and '', Element ''em'' [] [Text ''emphasis''], Text ''.'']]]
     = ''Title\<newline>=====\<newline>\<newline>Paragraph with **bold** and _emphasis_.''"
  "serialize_document options
     [Element ''table'' []
        [Element ''tr'' [] [Element ''th'' [] [Text ''Header 1''], Element ''th'' [] [Text ''Header 2'']],
         Element ''tr'' [] [Element ''td'' [] [Text ''Cell 1''], Element ''td'' [] [Text ''Cell 2'']]]]
     = ''Header 1\<newline>\<newline>Header 2\<newline>\<newline>Cell 1\<newline>\<newline>Cell 2''"
  by (simp_all add: serialize_document_def options_def block_tags_def)

lemma classify_no_backtick:
  "CHR 0x60 \<notin> set w \<Longrightarrow> classify (w @ t) = w @ classify t"
  by (simp add: classify_def js_pass_no_backtick py_pass_no_backtick)

section \<open>The classifier's precedence\<close>

text \<open>
  Claim C1. The classifier applies its two substitutions in a fixed order. Wherever an
  opening fence (three backticks and a line feed) stands in the serialized Markdown,
  whatever precedes and follows it, the fence is tagged \<open>javascript\<close> if the text behind it
  begins with a keyword of the first set; it is tagged \<open>python\<close> only if that is not so and
  the text begins with a keyword of the second set followed by white space; otherwise it
  is left as it is; the text before and behind the fence is classified on its own. Hence
  a first line that begins with a keyword of both sets (\<open>class\<close>, \<open>import\<close>, \<open>if\<close>, \<open>for\<close>,
  \<open>while\<close>) is tagged \<open>javascript\<close>, never \<open>python\<close>. In particular a block that starts with
  \<open>def f():\<close> is tagged \<open>python\<close> and one that starts with \<open>class X {}\<close> is tagged
  \<open>javascript\<close>.
\<close>

theorem classify_language_tag:
  "classify (pre @ ''```\<newline>'' @ body)
     = classify pre @ ''```'' @ spec_language_tag body @ ''\<newline>'' @ classify body
   \<and> (\<forall>kw \<in> set [''class'', ''import'', ''if'', ''for'', ''while''].
        classify (pre @ ''```\<newline>'' @ kw @ rest)
          = classify pre @ ''```javascript\<newline>'' @ kw @ classify rest)
   \<and> classify ''```\<newline>def f():\<newline>  pass\<newline>```''
         = ''```python\<newline>def f():\<newline>  pass\<newline>```''
   \<and> classify ''```\<newline>class X {}\<newline>```'' = ''```javascript\<newline>class X {}\<newline>```''"
proof (intro conjI ballI)
  show "classify (pre @ ''```\<newline>'' @ body)
          = classify pre @ ''```'' @ spec_language_tag body @ ''\<newline>'' @ classify body"
    using classify_fence [of pre body] by (simp add: fence_def)
next
  fix kw :: string
  assume kw: "kw \<in> set [''class'', ''import'', ''if'', ''for'', ''while'']"
  then have tag: "spec_language_tag (kw @ rest) = ''javascript''"
    by (auto simp: spec_language_tag_def js_keywords_def)
  from kw have "CHR 0x60 \<notin> set kw" by auto
  then have "classify (kw @ rest) = kw @ classify rest"
    by (rule classify_no_backtick)
  with tag show "classify (pre @ ''```\<newline>'' @ kw @ rest)
                   = classify pre @ ''```javascript\<newline>'' @ kw @ classify rest"
    using classify_fence [of pre "kw @ rest"] by (simp add: fence_def)
next
  show "classify ''```\<newline>def f():\<newline>  pass\<newline>```''
          = ''```python\<newline>def f():\<newline>  pass\<newline>```''"
    by (simp add: classify_def js_regex_def py_regex_def fence_def js_keywords_def
        py_keywords_def followed_by_space_def is_space_def)
next
  show "classify ''```\<newline>class X {}\<newline>```'' = ''```javascript\<newline>class X {}\<newline>```''"
    by (simp add: classify_def js_regex_def py_regex_def fence_def js_keywords_def
        py_keywords_def followed_by_space_def is_space_def)
qed

theorem classify_language_tag_witness:
  "classify (''see: '' @ ''```\<newline>'' @ ''import os\<newline>```'')
     = ''see: ```javascript\<newline>import os\<newline>```''"
  using classify_language_tag [where pre = "''see: ''" and rest = "'' os\<newline>```''"
      and body = "''import os\<newline>```''"]
  by (simp add: classify_def js_regex_def py_regex_def fence_def js_keywords_def
      py_keywords_def followed_by_space_def is_space_def spec_language_tag_def)

section \<open>Raw prefixes\<close>

text \<open>
  Claim C10. The classifier matches its keywords as raw prefixes, without a word boundary:
  a fenced block whose first line begins with \<open>classes\<close> or with \<open>format\<close>, neither of
  which is a JavaScript keyword, is still tagged \<open>javascript\<close>.
\<close>

theorem classify_raw_prefix:
  "classify ''```\<newline>classes = []\<newline>```'' = ''```javascript\<newline>classes = []\<newline>```''
   \<and> classify ''```\<newline>format(x)\<newline>```'' = ''```javascript\<newline>format(x)\<newline>```''"
  by (simp add: classify_def js_regex_def py_regex_def fence_def js_keywords_def py_keywords_def
      followed_by_space_def is_space_def)

section \<open>Extraction failure\<close>

text \<open>
  Claim C5. When the request succeeds and extraction finds no usable article content
  (no article, or an article whose content is missing or empty), \<open>scrapeToMarkdown\<close>
  fails with the message \<open>Scraping error: Failed to parse article content\<close> and returns no
  Markdown; the tool handler hands that message to the caller as an error result; and
  the URL has been requested exactly once: nothing is retried.
\<close>

theorem extraction_failure_is_terminal:
  assumes "fetch c url = Inr response"
    and "ok response"
    and "parse_article c (html_text response) url = Inr found"
    and "found = None \<or> (\<exists>a. found = Some a \<and> (content a = None \<or> content a = Some []))"
  shows "scrapeToMarkdown c url requests
           = (Inl ''Scraping error: Failed to parse article content'', requests @ [url])
         \<and> scrape_tool c url requests
           = (\<lparr>content_text = ''Error: Scraping error: Failed to parse article content'', isError = True\<rparr>,
              requests @ [url])"
proof -
  from assms have "scrape_steps c url = Inl ''Failed to parse article content''"
    by (auto simp: scrape_steps_def)
  then show ?thesis
    by (simp add: scrapeToMarkdown_def scrape_tool_def)
qed

theorem extraction_failure_is_terminal_witness:
  "scrape_tool
     \<lparr>fetch = (\<lambda>u. Inr \<lparr>ok = True, status = 200, html_text = ''<html><body><nav></nav></body></html>''\<rparr>),
      parse_article = (\<lambda>html u. Inr None),
      converter = (\<lambda>opts html. html)\<rparr>
     ''https://ex.com'' []
   = (\<lparr>content_text = ''Error: Scraping error: Failed to parse article content'', isError = True\<rparr>,
      [''https://ex.com''])"
  using extraction_failure_is_terminal
    [where c = "\<lparr>fetch = (\<lambda>u. Inr \<lparr>ok = True, status = 200,
                                        html_text = ''<html><body><nav></nav></body></html>''\<rparr>),
                  parse_article = (\<lambda>html u. Inr None),
                  converter = (\<lambda>opts html. html)\<rparr>"
       and url = "''https://ex.com''" and requests = "[]" and found = None
       and response = "\<lparr>ok = True, status = 200, html_text = ''<html><body><nav></nav></body></html>''\<rparr>"]
  by simp

section \<open>What is removed before conversion\<close>




section \<open>The final step of the pipeline\<close>

text \<open>
  Claim C6, as stated, fails: \<open>scrapeToMarkdown\<close> has no normalization step. Its last
  step, the classifier, returns a run of three line feeds and a trailing space as they
  are, where the Normalizer of the specification would give two line feeds and no
  trailing space.
\<close>

theorem no_normalization_counterexample:
  "classify ''a\<newline>\<newline>\<newline>b '' = ''a\<newline>\<newline>\<newline>b ''
   \<and> spec_normalize ''a\<newline>\<newline>\<newline>b '' = ''a\<newline>\<newline>b''"
  by (simp add: classify_def js_regex_def py_regex_def fence_def spec_normalize_def is_space_def)

text \<open>
  Claim C6, as amended. When the request and the extraction succeed, what
  \<open>scrapeToMarkdown\<close> returns is the converter's Markdown after the two substitutions of
  the classifier and nothing else; and that final step is idempotent: classifying a
  classified text changes nothing.
\<close>

theorem final_step_idempotent:
  "classify (classify x) = classify x
   \<and> (fetch c url = Inr response \<and> ok response
        \<and> parse_article c (html_text response) url = Inr (Some a)
        \<and> content a = Some html \<and> html \<noteq> []
      \<longrightarrow> scrapeToMarkdown c url requests
            = (Inr (classify (htmlToMarkdown (converter c) html)), requests @ [url]))"
proof
  show "classify (classify x) = classify x"
  proof -
    let ?js = "replace_global js_regex" and ?py = "replace_global py_regex"
    have 1: "no_match js_regex (?js x)"
      by (rule no_match_after_pass [OF fence_matcher_js]) simp_all
    have 2: "no_match js_regex (?py (?js x))"
      by (rule no_match_after_pass [OF fence_matcher_py]) (use 1 no_match_suffix in auto)
    have 3: "no_match py_regex (?py (?js x))"
      by (rule no_match_after_pass [OF fence_matcher_py]) simp_all
    from 2 have "?js (?py (?js x)) = ?py (?js x)" by (rule replace_global_no_match)
    moreover from 3 have "?py (?py (?js x)) = ?py (?js x)" by (rule replace_global_no_match)
    ultimately show ?thesis by (simp add: classify_def)
  qed
  show "fetch c url = Inr response \<and> ok response
        \<and> parse_article c (html_text response) url = Inr (Some a)
        \<and> content a = Some html \<and> html \<noteq> []
      \<longrightarrow> scrapeToMarkdown c url requests
            = (Inr (classify (htmlToMarkdown (converter c) html)), requests @ [url])"
    by (simp add: scrapeToMarkdown_def scrape_steps_def)
qed

theorem final_step_idempotent_witness:
  "scrapeToMarkdown
     \<lparr>fetch = (\<lambda>u. Inr \<lparr>ok = True, status = 200, html_text = ''<pre><code>x</code></pre>''\<rparr>),
      parse_article = (\<lambda>html u. Inr (Some \<lparr>content = Some html\<rparr>)),
      converter = (\<lambda>opts html. ''```\<newline>x\<newline>\<newline>\<newline>y\<newline>```'')\<rparr>
     ''https://ex.com'' []
   = (Inr ''```\<newline>x\<newline>\<newline>\<newline>y\<newline>```'', [''https://ex.com''])"
  using final_step_idempotent
    [where c = "\<lparr>fetch = (\<lambda>u. Inr \<lparr>ok = True, status = 200,
                                        html_text = ''<pre><code>x</code></pre>''\<rparr>),
                  parse_article = (\<lambda>html u. Inr (Some \<lparr>content = Some html\<rparr>)),
                  converter = (\<lambda>opts html. ''```\<newline>x\<newline>\<newline>\<newline>y\<newline>```'')\<rparr>"
       and url = "''https://ex.com''" and requests = "[]"
       and response = "\<lparr>ok = True, status = 200, html_text = ''<pre><code>x</code></pre>''\<rparr>"
       and a = "\<lparr>content = Some ''<pre><code>x</code></pre>''\<rparr>"
       and html = "''<pre><code>x</code></pre>''"]
  by (simp add: classify_def js_regex_def py_regex_def fence_def js_keywords_def
      py_keywords_def followed_by_space_def htmlToMarkdown_def)

section \<open>Headings\<close>


section \<open>Emphasis\<close>

text \<open>
  Claim C8. Emphasis has fixed delimiters: for every text \<open>x\<close>, \<open><em>x</em>\<close> is
  serialized as \<open>_x_\<close>, \<open><strong>x</strong>\<close> as \<open>**x**\<close>, and the nested
  \<open><strong><em>x</em></strong>\<close> as \<open>**_x_**\<close>.
\<close>

theorem emphasis_delimiters:
  "serialize_document options [Element ''em'' a [Text x]] = ''_'' @ x @ ''_''
   \<and> serialize_document options [Element ''strong'' a [Text x]] = ''**'' @ x @ ''**''
   \<and> serialize_document options [Element ''strong'' a [Element ''em'' b [Text x]]]
     = ''**_'' @ x @ ''_**''"
  by (simp add: serialize_document_def options_def)

section \<open>Tables\<close>




end
